theory Spec2Isabelle
  imports Main "HOL-Library.Multiset" "HOL-Library.Word"
begin

section \<open>The standard algorithms used by \<open>sorted_vector\<close>\<close>

text \<open>
  \<open>src/ADT/sorted_vector.h\<close> keeps its keys in a \<open>std::vector\<close> and delegates searching,
  sorting and deduplication to \<open><algorithm>\<close>. A vector is a list, an iterator is the
  index of the element it points to, and \<open>end()\<close> is the length of the list. The comparator
  is a value of type \<open>'k \<Rightarrow> 'k \<Rightarrow> bool\<close>.
\<close>

type_synonym 'k compare = "'k \<Rightarrow> 'k \<Rightarrow> bool"

text \<open>
  \<open>std::lower_bound(first, last, val, comp)\<close>: the halving loop of the standard library,
  \<^verbatim>\<open>while (len > 0) { half = len >> 1; middle = first + half;
     if (comp(*middle, val)) { first = middle + 1; len = len - half - 1; } else len = half; }
   return first;\<close>
\<close>

function lower_bound_loop :: "'k compare \<Rightarrow> 'k list \<Rightarrow> 'k \<Rightarrow> nat \<Rightarrow> nat \<Rightarrow> nat" where
  "lower_bound_loop c xs val first len =
     (if 0 < len
      then (if c (xs ! (first + len div 2)) val
            then lower_bound_loop c xs val (first + len div 2 + 1) (len - len div 2 - 1)
            else lower_bound_loop c xs val first (len div 2))
      else first)"
  by pat_completeness auto
termination
  by (relation "measure (\<lambda>(c, xs, val, first, len). len)") auto

declare lower_bound_loop.simps [simp del]

definition std_lower_bound :: "'k compare \<Rightarrow> 'k list \<Rightarrow> 'k \<Rightarrow> nat" where
  "std_lower_bound c xs val = lower_bound_loop c xs val 0 (length xs)"

text \<open>
  \<open>std::upper_bound\<close>: the same loop, moving right while \<open>!comp(val, *middle)\<close>.
\<close>

function upper_bound_loop :: "'k compare \<Rightarrow> 'k list \<Rightarrow> 'k \<Rightarrow> nat \<Rightarrow> nat \<Rightarrow> nat" where
  "upper_bound_loop c xs val first len =
     (if 0 < len
      then (if c val (xs ! (first + len div 2))
            then upper_bound_loop c xs val first (len div 2)
            else upper_bound_loop c xs val (first + len div 2 + 1) (len - len div 2 - 1))
      else first)"
  by pat_completeness auto
termination
  by (relation "measure (\<lambda>(c, xs, val, first, len). len)") auto

declare upper_bound_loop.simps [simp del]

definition std_upper_bound :: "'k compare \<Rightarrow> 'k list \<Rightarrow> 'k \<Rightarrow> nat" where
  "std_upper_bound c xs val = upper_bound_loop c xs val 0 (length xs)"

text \<open>\<open>std::equal_range\<close> returns the pair of the two bounds.\<close>

definition std_equal_range :: "'k compare \<Rightarrow> 'k list \<Rightarrow> 'k \<Rightarrow> nat \<times> nat" where
  "std_equal_range c xs val = (std_lower_bound c xs val, std_upper_bound c xs val)"

text \<open>
  \<open>std::sort(first, last, comp)\<close> is specified by its result only: a permutation of the
  range in non-descending order, with the order of equivalent elements left open
  (\<open>conforming_sort\<close> below). \<open>std_sort\<close> is one such function, insertion sort, which is also
  what the usual implementations run on short ranges; on longer ranges they may leave
  equivalent elements in another order. No general statement below says which of several
  equivalent elements a sorted or normalised vector holds: the general statements use the
  permutation and the sortedness only, and \<open>sort_unique_any_sort\<close> shows that every
  conforming sort leads to the same normalised vector up to equivalence, and to the very
  same vector when equivalent keys are equal.
\<close>

fun linear_insert :: "'k compare \<Rightarrow> 'k \<Rightarrow> 'k list \<Rightarrow> 'k list" where
  "linear_insert c val [] = [val]"
| "linear_insert c val (x # xs) =
     (if c val x then val # x # xs else x # linear_insert c val xs)"

definition std_sort :: "'k compare \<Rightarrow> 'k list \<Rightarrow> 'k list" where
  "std_sort c xs = foldl (\<lambda>acc val. linear_insert c val acc) [] xs"

text \<open>
  \<open>std::unique(first, last, p)\<close> keeps the first element of every run: an element is
  dropped when \<open>p\<close> holds between the last element kept and it. The model returns the kept
  prefix, which is what \<open>storage.erase(std::unique(...), end())\<close> leaves in the vector.
\<close>

fun std_unique :: "('k \<Rightarrow> 'k \<Rightarrow> bool) \<Rightarrow> 'k list \<Rightarrow> 'k list" where
  "std_unique p [] = []"
| "std_unique p [x] = [x]"
| "std_unique p (x # y # ys) =
     (if p x y then std_unique p (x # ys) else x # std_unique p (y # ys))"

text \<open>\<open>std::is_sorted\<close>: no element orders before its predecessor.\<close>

fun std_is_sorted :: "'k compare \<Rightarrow> 'k list \<Rightarrow> bool" where
  "std_is_sorted c [] = True"
| "std_is_sorted c [x] = True"
| "std_is_sorted c (x # y # ys) = (if c y x then False else std_is_sorted c (y # ys))"

text \<open>
  \<open>std::adjacent_find\<close>: the index of the first element that satisfies \<open>p\<close> with its
  successor, the length of the list when there is none.
\<close>

fun std_adjacent_find :: "('k \<Rightarrow> 'k \<Rightarrow> bool) \<Rightarrow> 'k list \<Rightarrow> nat" where
  "std_adjacent_find p [] = 0"
| "std_adjacent_find p [x] = 1"
| "std_adjacent_find p (x # y # ys) =
     (if p x y then 0 else Suc (std_adjacent_find p (y # ys)))"

text \<open>
  \<open>std::vector::insert(pos, value)\<close> and \<open>std::vector::erase(pos)\<close>,
  \<open>erase(first, last)\<close> on positions inside the vector.
\<close>

definition vector_insert :: "'k list \<Rightarrow> nat \<Rightarrow> 'k \<Rightarrow> 'k list" where
  "vector_insert xs pos v = take pos xs @ v # drop pos xs"

definition vector_erase :: "'k list \<Rightarrow> nat \<Rightarrow> 'k list" where
  "vector_erase xs pos = take pos xs @ drop (Suc pos) xs"

definition vector_erase_range :: "'k list \<Rightarrow> nat \<Rightarrow> nat \<Rightarrow> 'k list" where
  "vector_erase_range xs first lst = take first xs @ drop lst xs"

section \<open>The container\<close>

text \<open>
  The class has two data members, the vector \<open>storage\<close> and the comparator \<open>comp\<close>
  (named \<open>comp_sv\<close> here). Member functions take the object and return the updated object
  together with their result.
\<close>

record 'k sorted_vector =
  storage :: "'k list"
  comp_sv :: "'k compare"

definition end_sv :: "'k sorted_vector \<Rightarrow> nat" where
  "end_sv sv = length (storage sv)"

definition empty_sv :: "'k sorted_vector \<Rightarrow> bool" where
  "empty_sv sv = (storage sv = [])"

definition size_sv :: "'k sorted_vector \<Rightarrow> nat" where
  "size_sv sv = length (storage sv)"

definition equivalent :: "'k sorted_vector \<Rightarrow> 'k \<Rightarrow> 'k \<Rightarrow> bool" where
  "equivalent sv k1 k2 = (\<not> comp_sv sv k1 k2 \<and> \<not> comp_sv sv k2 k1)"

definition greater_sv :: "'k sorted_vector \<Rightarrow> 'k \<Rightarrow> 'k \<Rightarrow> bool" where
  "greater_sv sv k1 k2 = comp_sv sv k2 k1"

definition good_hint :: "'k sorted_vector \<Rightarrow> nat \<Rightarrow> 'k \<Rightarrow> bool" where
  "good_hint sv hint k =
     (if hint \<noteq> 0 \<and> \<not> greater_sv sv k (storage sv ! (hint - 1)) then False
      else if hint \<noteq> end_sv sv \<and> \<not> comp_sv sv k (storage sv ! hint) then False
      else True)"

text \<open>
  \<open>sort_unique(first, last)\<close> is only ever called with \<open>begin()\<close> and \<open>end()\<close>, so the model
  works on the whole vector: sort, then erase what \<open>std::unique\<close> leaves behind its result.
\<close>

definition sort_unique :: "'k sorted_vector \<Rightarrow> 'k sorted_vector" where
  "sort_unique sv =
     sv\<lparr>storage := std_unique (equivalent sv) (std_sort (comp_sv sv) (storage sv))\<rparr>"

text \<open>
  How the body of a function with a return type ends: at a \<open>return\<close> statement with a value,
  or at its closing brace. A call whose body ends at the closing brace has undefined
  behaviour, which is the result \<open>None\<close> of the call.
\<close>

datatype 'r completion = Return 'r | Falls_off_end

definition value_returning_call :: "'s \<times> 'r completion \<Rightarrow> ('s \<times> 'r) option" where
  "value_returning_call r =
     (case r of (s, Return x) \<Rightarrow> Some (s, x) | (s, Falls_off_end) \<Rightarrow> None)"

text \<open>
  Constructors: empty, and from a range or an initializer list (the values are the list
  \<open>ilist\<close>). The assignment from an initializer list is declared to return
  \<open>sorted_vector &\<close>; its body replaces the contents, normalises them and ends without a
  \<open>return\<close> statement.
\<close>

definition construct_empty :: "'k compare \<Rightarrow> 'k sorted_vector" where
  "construct_empty c = \<lparr>storage = [], comp_sv = c\<rparr>"

definition construct_from :: "'k list \<Rightarrow> 'k compare \<Rightarrow> 'k sorted_vector" where
  "construct_from ilist c = sort_unique \<lparr>storage = ilist, comp_sv = c\<rparr>"

definition assign_ilist_body ::
  "'k sorted_vector \<Rightarrow> 'k list \<Rightarrow> 'k sorted_vector \<times> unit completion" where
  "assign_ilist_body sv ilist = (sort_unique (sv\<lparr>storage := ilist\<rparr>), Falls_off_end)"

definition assign_ilist :: "'k sorted_vector \<Rightarrow> 'k list \<Rightarrow> ('k sorted_vector \<times> unit) option" where
  "assign_ilist sv ilist = value_returning_call (assign_ilist_body sv ilist)"

text \<open>
  Searching. (As shipped, the \<open>const\<close> overloads call the non-\<open>const\<close> \<open>comp_refwrap\<close>, so
  \<open>count\<close> is rejected by the compiler once it is used; \<open>count_sv\<close> is what its body is
  written to compute.)
\<close>

definition lower_bound :: "'k sorted_vector \<Rightarrow> 'k \<Rightarrow> nat" where
  "lower_bound sv key = std_lower_bound (comp_sv sv) (storage sv) key"

definition upper_bound :: "'k sorted_vector \<Rightarrow> 'k \<Rightarrow> nat" where
  "upper_bound sv key = std_upper_bound (comp_sv sv) (storage sv) key"

definition equal_range :: "'k sorted_vector \<Rightarrow> 'k \<Rightarrow> nat \<times> nat" where
  "equal_range sv key = std_equal_range (comp_sv sv) (storage sv) key"

definition count_sv :: "'k sorted_vector \<Rightarrow> 'k \<Rightarrow> nat" where
  "count_sv sv key = (let result = equal_range sv key in snd result - fst result)"

definition find_sv :: "'k sorted_vector \<Rightarrow> 'k \<Rightarrow> nat" where
  "find_sv sv key =
     (let I = lower_bound sv key in
      if I = end_sv sv \<or> comp_sv sv key (storage sv ! I) then I else end_sv sv)"

definition validate :: "'k sorted_vector \<Rightarrow> bool" where
  "validate sv =
     (let sorted = std_is_sorted (comp_sv sv) (storage sv);
          unique = (std_adjacent_find (equivalent sv) (storage sv) = end_sv sv)
      in sorted \<and> unique)"

text \<open>
  Modifiers. An erased position must point at an element, and an erased range must lie
  inside the vector.
\<close>

definition clear :: "'k sorted_vector \<Rightarrow> 'k sorted_vector" where
  "clear sv = sv\<lparr>storage := []\<rparr>"

definition erase_pos :: "'k sorted_vector \<Rightarrow> nat \<Rightarrow> 'k sorted_vector" where
  "erase_pos sv pos = sv\<lparr>storage := vector_erase (storage sv) pos\<rparr>"

definition erase_range :: "'k sorted_vector \<Rightarrow> nat \<Rightarrow> nat \<Rightarrow> 'k sorted_vector" where
  "erase_range sv first lst = sv\<lparr>storage := vector_erase_range (storage sv) first lst\<rparr>"

definition erase :: "'k sorted_vector \<Rightarrow> 'k \<Rightarrow> 'k sorted_vector \<times> nat" where
  "erase sv key =
     (let I = find_sv sv key in
      if I \<noteq> end_sv sv then (sv\<lparr>storage := vector_erase (storage sv) I\<rparr>, 1)
      else (sv, 0))"

text \<open>
  \<open>swap\<close> exchanges the two vectors and nothing else: each object keeps its comparator.
  The result is the pair (this object, the other object).
\<close>

definition swap_sv :: "'k sorted_vector \<Rightarrow> 'k sorted_vector \<Rightarrow> 'k sorted_vector \<times> 'k sorted_vector" where
  "swap_sv sv other = (sv\<lparr>storage := storage other\<rparr>, other\<lparr>storage := storage sv\<rparr>)"

definition insert_sv :: "'k sorted_vector \<Rightarrow> 'k \<Rightarrow> 'k sorted_vector \<times> (nat \<times> bool)" where
  "insert_sv sv v =
     (let I = lower_bound sv v in
      if I \<noteq> end_sv sv \<and> equivalent sv (storage sv ! I) v then (sv, (I, False))
      else (sv\<lparr>storage := vector_insert (storage sv) I v\<rparr>, (I, True)))"

text \<open>
  The hinted overloads are declared to return an iterator. Their body inserts at the hint
  or calls \<open>insert(value)\<close>, drops what these calls return, and ends at the closing brace
  in both branches. \<open>hint\<close> must be a position of the vector (\<open>hint \<le> end()\<close>).
\<close>

definition insert_hint_body ::
  "'k sorted_vector \<Rightarrow> nat \<Rightarrow> 'k \<Rightarrow> 'k sorted_vector \<times> nat completion" where
  "insert_hint_body sv hint v =
     (if good_hint sv hint v
      then (sv\<lparr>storage := vector_insert (storage sv) hint v\<rparr>, Falls_off_end)
      else (fst (insert_sv sv v), Falls_off_end))"

definition insert_hint :: "'k sorted_vector \<Rightarrow> nat \<Rightarrow> 'k \<Rightarrow> ('k sorted_vector \<times> nat) option" where
  "insert_hint sv hint v = value_returning_call (insert_hint_body sv hint v)"

text \<open>
  The range insert: on an empty container the values are put into the vector and
  normalised; otherwise (after reserving capacity, which changes no element) the loop
  \<^verbatim>\<open>while (first != last) insert(*first++);\<close> inserts them one at a time.
\<close>

definition insert_each :: "'k sorted_vector \<Rightarrow> 'k list \<Rightarrow> 'k sorted_vector" where
  "insert_each sv vs = foldl (\<lambda>s v. fst (insert_sv s v)) sv vs"

definition insert_range :: "'k sorted_vector \<Rightarrow> 'k list \<Rightarrow> 'k sorted_vector" where
  "insert_range sv vs =
     (if empty_sv sv then sort_unique (sv\<lparr>storage := vs\<rparr>)
      else insert_each sv vs)"

text \<open>
  \<open>emplace(args...)\<close> builds the value \<open>tmp\<close> from the forwarded arguments, searches with
  it, and, when it inserts, forwards the same arguments a second time into
  \<open>storage.emplace\<close>. The element stored is therefore the value built from the arguments
  as the first construction left them: \<open>again\<close>, which is \<open>tmp\<close> for arguments that are
  copied and may be anything else for arguments that the first construction moved from.
  The iterator returned is \<open>I\<close>, taken before the insertion: it is as good as new when
  nothing was inserted (\<open>Fresh\<close>), and invalidated by the insertion otherwise (\<open>Stale\<close>).
  \<open>emplace_hint\<close> ignores its hint.
\<close>

datatype returned_iterator = Fresh nat | Stale nat

definition emplace ::
  "'k sorted_vector \<Rightarrow> 'k \<Rightarrow> 'k \<Rightarrow> 'k sorted_vector \<times> (returned_iterator \<times> bool)" where
  "emplace sv tmp again =
     (let I = lower_bound sv tmp in
      if I = end_sv sv
      then (sv\<lparr>storage := vector_insert (storage sv) I again\<rparr>, (Stale I, True))
      else if equivalent sv (storage sv ! I) tmp then (sv, (Fresh I, False))
      else (sv\<lparr>storage := vector_insert (storage sv) I again\<rparr>, (Stale I, True)))"

definition emplace_hint ::
  "'k sorted_vector \<Rightarrow> nat \<Rightarrow> 'k \<Rightarrow> 'k \<Rightarrow> 'k sorted_vector \<times> returned_iterator" where
  "emplace_hint sv hint tmp again = (let r = emplace sv tmp again in (fst r, fst (snd r)))"

text \<open>
  A run of the public mutators on one object. Positions handed to \<open>std::vector\<close> must lie
  inside the vector; a call that breaks this has undefined behaviour, which is the result
  \<open>None\<close>, as is a call of a member whose body ends without the \<open>return\<close> it owes. Copy and
  move assignment are defaulted: both members are taken from the source object. An
  \<open>emplace\<close> carries the two values built from its arguments.
\<close>

datatype 'k operation =
    Op_assign "'k sorted_vector"
  | Op_assign_ilist "'k list"
  | Op_clear
  | Op_erase_pos nat
  | Op_erase_range nat nat
  | Op_erase_key 'k
  | Op_swap "'k sorted_vector"
  | Op_insert 'k
  | Op_insert_hint nat 'k
  | Op_insert_range "'k list"
  | Op_emplace 'k 'k
  | Op_emplace_hint nat 'k 'k

fun apply_operation :: "'k sorted_vector \<Rightarrow> 'k operation \<Rightarrow> 'k sorted_vector option" where
  "apply_operation sv (Op_assign other) = Some other"
| "apply_operation sv (Op_assign_ilist ilist) = map_option fst (assign_ilist sv ilist)"
| "apply_operation sv Op_clear = Some (clear sv)"
| "apply_operation sv (Op_erase_pos pos) =
     (if pos < end_sv sv then Some (erase_pos sv pos) else None)"
| "apply_operation sv (Op_erase_range first lst) =
     (if first \<le> lst \<and> lst \<le> end_sv sv then Some (erase_range sv first lst) else None)"
| "apply_operation sv (Op_erase_key key) = Some (fst (erase sv key))"
| "apply_operation sv (Op_swap other) = Some (fst (swap_sv sv other))"
| "apply_operation sv (Op_insert v) = Some (fst (insert_sv sv v))"
| "apply_operation sv (Op_insert_hint hint v) =
     (if hint \<le> end_sv sv then map_option fst (insert_hint sv hint v) else None)"
| "apply_operation sv (Op_insert_range vs) = Some (insert_range sv vs)"
| "apply_operation sv (Op_emplace tmp again) = Some (fst (emplace sv tmp again))"
| "apply_operation sv (Op_emplace_hint hint tmp again) =
     Some (fst (emplace_hint sv hint tmp again))"

fun run_operations :: "'k sorted_vector \<Rightarrow> 'k operation list \<Rightarrow> 'k sorted_vector option" where
  "run_operations sv [] = Some sv"
| "run_operations sv (x # xs) =
     (case apply_operation sv x of None \<Rightarrow> None | Some sv' \<Rightarrow> run_operations sv' xs)"

section \<open>The contract of the comparator and the invariants\<close>

text \<open>
  The comparator is required to be a strict weak order: irreflexive, transitive, and with
  a transitive equivalence.
\<close>

definition strict_weak_order :: "'k compare \<Rightarrow> bool" where
  "strict_weak_order c \<longleftrightarrow>
     (\<forall>a. \<not> c a a) \<and>
     (\<forall>a b d. c a b \<longrightarrow> c b d \<longrightarrow> c a d) \<and>
     (\<forall>a b d. \<not> c a b \<and> \<not> c b a \<longrightarrow> \<not> c b d \<and> \<not> c d b \<longrightarrow> \<not> c a d \<and> \<not> c d a)"

text \<open>
  I1: no later element orders before an earlier one. I2: no two elements at different
  positions are equivalent. \<open>sorted_wrt\<close> relates every element to all the elements after
  it; \<open>I1_nth\<close> and \<open>I2_nth\<close> below give the two invariants in terms of indices.
\<close>

definition I1 :: "'k sorted_vector \<Rightarrow> bool" where
  "I1 sv = sorted_wrt (\<lambda>a b. \<not> comp_sv sv b a) (storage sv)"

definition I2 :: "'k sorted_vector \<Rightarrow> bool" where
  "I2 sv = sorted_wrt (\<lambda>a b. \<not> equivalent sv a b) (storage sv)"

text \<open>A key is present when some stored element is equivalent to it.\<close>

definition present :: "'k sorted_vector \<Rightarrow> 'k \<Rightarrow> bool" where
  "present sv k = list_ex (\<lambda>x. equivalent sv x k) (storage sv)"

text \<open>
  The objects an assignment or a swap may take as its argument: containers that satisfy
  the invariants under their own comparator; a swap partner is further asked to hold the
  comparator of the object itself, and an \<open>emplace\<close> to have arguments that building
  \<open>tmp\<close> leaves as they were. A run is admissible when every call is defined and takes
  such arguments.
\<close>

definition well_formed :: "'k sorted_vector \<Rightarrow> bool" where
  "well_formed sv \<longleftrightarrow> strict_weak_order (comp_sv sv) \<and> I1 sv \<and> I2 sv"

fun admissible :: "'k sorted_vector \<Rightarrow> 'k operation \<Rightarrow> bool" where
  "admissible sv (Op_assign other) = well_formed other"
| "admissible sv (Op_swap other) = (well_formed other \<and> comp_sv other = comp_sv sv)"
| "admissible sv (Op_emplace tmp again) = (again = tmp)"
| "admissible sv (Op_emplace_hint hint tmp again) = (again = tmp)"
| "admissible sv _ = True"

fun admissible_run :: "'k sorted_vector \<Rightarrow> 'k operation list \<Rightarrow> bool" where
  "admissible_run sv [] = True"
| "admissible_run sv (x # xs) =
     (admissible sv x \<and>
      (case apply_operation sv x of None \<Rightarrow> False | Some sv' \<Rightarrow> admissible_run sv' xs))"

text \<open>
  The contract of \<open>std::sort\<close>. Comparators whose equivalence is equality (a total order
  on the keys), and an example of one that is not: it orders pairs by their first
  component only.
\<close>

definition conforming_sort :: "('k compare \<Rightarrow> 'k list \<Rightarrow> 'k list) \<Rightarrow> bool" where
  "conforming_sort srt \<longleftrightarrow>
     (\<forall>c xs. strict_weak_order c \<longrightarrow>
        mset (srt c xs) = mset xs \<and> sorted_wrt (\<lambda>a b. \<not> c b a) (srt c xs))"

definition equal_when_equivalent :: "'k compare \<Rightarrow> bool" where
  "equal_when_equivalent c \<longleftrightarrow> (\<forall>a b. \<not> c a b \<and> \<not> c b a \<longrightarrow> a = b)"

definition compare_first :: "(int \<times> int) compare" where
  "compare_first a b = (fst a < fst b)"

section \<open>The semaphore\<close>

text \<open>
  \<open>src/smp/semaphore.h\<close>: two \<open>unsigned\<close> counters guarded by a spinlock. Every member
  function takes the lock on entry and gives it up before it returns or waits, so the
  lock is free between calls and each body is one atomic step on the two counters. A
  call either returns or is left waiting on the condition variable.
\<close>

record semaphore =
  count_sem :: "32 word"
  waiters :: "32 word"

datatype 'a outcome = Returns semaphore 'a | Blocks semaphore

definition try_wait :: "semaphore \<Rightarrow> bool outcome" where
  "try_wait s =
     (if 0 < count_sem s then Returns (s\<lparr>count_sem := count_sem s - 1\<rparr>) True
      else Returns s False)"

definition wait :: "semaphore \<Rightarrow> unit outcome" where
  "wait s =
     (if 0 < count_sem s then Returns (s\<lparr>count_sem := count_sem s - 1\<rparr>) ()
      else Blocks (s\<lparr>waiters := waiters s + 1\<rparr>))"

section \<open>The raw array\<close>

text \<open>
  \<open>src/util/raw_array.h\<close>: a block \<open>data[N]\<close> of slots, each holding one \<open>T\<close>. The template
  parameter \<open>N\<close> is a parameter of the model. \<open>operator[]\<close> reaches \<open>data[index]\<close> with no
  comparison against \<open>N\<close>, so \<open>data\<close> is a function of the index: below \<open>N\<close> it is the
  array's own slots, from \<open>N\<close> on whatever lies behind the array. The \<open>const\<close> overload reads
  the slot; a write through the reference of the other overload updates it.
\<close>

record 'a raw_array =
  data :: "nat \<Rightarrow> 'a"

definition capacity :: "nat \<Rightarrow> 'a raw_array \<Rightarrow> nat" where
  "capacity N a = N"

definition subscript :: "'a raw_array \<Rightarrow> nat \<Rightarrow> 'a" where
  "subscript a index = data a index"

definition subscript_assign :: "'a raw_array \<Rightarrow> nat \<Rightarrow> 'a \<Rightarrow> 'a raw_array" where
  "subscript_assign a index v = a\<lparr>data := (data a)(index := v)\<rparr>"

section \<open>Strict weak orders\<close>

lemma swo_irrefl: "strict_weak_order c \<Longrightarrow> \<not> c a a"
  by (simp add: strict_weak_order_def)

lemma swo_trans: "strict_weak_order c \<Longrightarrow> c a b \<Longrightarrow> c b d \<Longrightarrow> c a d"
  unfolding strict_weak_order_def by blast

lemma swo_asym: "strict_weak_order c \<Longrightarrow> c a b \<Longrightarrow> \<not> c b a"
  using swo_irrefl swo_trans by metis

lemma swo_equiv_trans:
  "strict_weak_order c \<Longrightarrow> \<not> c a b \<Longrightarrow> \<not> c b a \<Longrightarrow> \<not> c b d \<Longrightarrow> \<not> c d b \<Longrightarrow> \<not> c a d \<and> \<not> c d a"
  unfolding strict_weak_order_def by blast

lemma swo_neg_trans:
  assumes "strict_weak_order c" "\<not> c a b" "\<not> c b d"
  shows "\<not> c a d"
proof
  assume ad: "c a d"
  have nba: "\<not> c b a" using assms(1,3) ad swo_trans by metis
  have ndb: "\<not> c d b" using assms(1,2) ad swo_trans by metis
  from swo_equiv_trans [OF assms(1) assms(2) nba assms(3) ndb] ad show False by simp
qed

lemma swo_less_le: "strict_weak_order c \<Longrightarrow> c a b \<Longrightarrow> \<not> c d b \<Longrightarrow> c a d"
  using swo_neg_trans by metis

lemma swo_le_less: "strict_weak_order c \<Longrightarrow> \<not> c b a \<Longrightarrow> c b d \<Longrightarrow> c a d"
  using swo_neg_trans by metis

lemma swo_less_int: "strict_weak_order ((<) :: int \<Rightarrow> int \<Rightarrow> bool)"
  by (auto simp: strict_weak_order_def)

lemma strict_sorted_iff:
  assumes "strict_weak_order c"
  shows "sorted_wrt c xs \<longleftrightarrow>
    sorted_wrt (\<lambda>a b. \<not> c b a) xs \<and> sorted_wrt (\<lambda>a b. \<not> (\<not> c a b \<and> \<not> c b a)) xs"
proof (induction xs)
  case Nil
  show ?case by simp
next
  case (Cons x xs)
  have "(\<forall>y\<in>set xs. c x y) \<longleftrightarrow> (\<forall>y\<in>set xs. \<not> c y x) \<and> (\<forall>y\<in>set xs. \<not> (\<not> c x y \<and> \<not> c y x))"
    using swo_asym [OF assms] by blast
  with Cons show ?case by auto
qed

section \<open>Binary search\<close>

text \<open>
  On a range partitioned by \<open>\<lambda>x. c x val\<close> the loop returns the partition point.
\<close>

lemma lower_bound_loop_stop: "lower_bound_loop c xs val first 0 = first"
  by (subst lower_bound_loop.simps) simp

lemma lower_bound_loop_right:
  "0 < len \<Longrightarrow> c (xs ! (first + len div 2)) val \<Longrightarrow>
   lower_bound_loop c xs val first len =
   lower_bound_loop c xs val (first + len div 2 + 1) (len - len div 2 - 1)"
  by (subst lower_bound_loop.simps) simp

lemma lower_bound_loop_left:
  "0 < len \<Longrightarrow> \<not> c (xs ! (first + len div 2)) val \<Longrightarrow>
   lower_bound_loop c xs val first len = lower_bound_loop c xs val first (len div 2)"
  by (subst lower_bound_loop.simps) simp

lemma lower_bound_loop_partition:
  assumes "\<forall>i j. i \<le> j \<and> j < length xs \<and> c (xs ! j) val \<longrightarrow> c (xs ! i) val"
  shows "first + len \<le> length xs \<Longrightarrow> (\<forall>i<first. c (xs ! i) val) \<Longrightarrow>
         (\<forall>i. first + len \<le> i \<and> i < length xs \<longrightarrow> \<not> c (xs ! i) val) \<Longrightarrow>
         lower_bound_loop c xs val first len \<le> length xs \<and>
         (\<forall>i<lower_bound_loop c xs val first len. c (xs ! i) val) \<and>
         (\<forall>i. lower_bound_loop c xs val first len \<le> i \<and> i < length xs \<longrightarrow> \<not> c (xs ! i) val)"
  using assms
proof (induction c xs val first len rule: lower_bound_loop.induct)
  case (1 c xs val first len)
  show ?case
  proof (cases "0 < len")
    case False
    with 1(3,4,5) show ?thesis by (simp add: lower_bound_loop_stop)
  next
    case pos: True
    let ?m = "first + len div 2"
    have mlt: "?m < length xs" using pos 1(3) by linarith
    show ?thesis
    proof (cases "c (xs ! ?m) val")
      case True
      have a: "?m + 1 + (len - len div 2 - 1) \<le> length xs" using pos 1(3) by linarith
      have b: "\<forall>i<?m + 1. c (xs ! i) val"
      proof (intro allI impI)
        fix i assume "i < ?m + 1"
        then have "i \<le> ?m" by simp
        with 1(6) mlt True show "c (xs ! i) val" by blast
      qed
      have d: "\<forall>i. ?m + 1 + (len - len div 2 - 1) \<le> i \<and> i < length xs \<longrightarrow> \<not> c (xs ! i) val"
      proof (intro allI impI)
        fix i assume h: "?m + 1 + (len - len div 2 - 1) \<le> i \<and> i < length xs"
        then have "first + len \<le> i" using pos by linarith
        with 1(5) h show "\<not> c (xs ! i) val" by blast
      qed
      from 1(1) [OF pos True a b d 1(6)] show ?thesis
        by (simp add: lower_bound_loop_right [of len c xs first val, OF pos True])
    next
      case False
      have a: "first + len div 2 \<le> length xs" using mlt by simp
      have d: "\<forall>i. first + len div 2 \<le> i \<and> i < length xs \<longrightarrow> \<not> c (xs ! i) val"
      proof (intro allI impI)
        fix i assume h: "first + len div 2 \<le> i \<and> i < length xs"
        show "\<not> c (xs ! i) val"
        proof
          assume "c (xs ! i) val"
          with 1(6) h have "c (xs ! ?m) val" by blast
          with False show False by simp
        qed
      qed
      from 1(2) [OF pos False a 1(4) d 1(6)] show ?thesis
        by (simp add: lower_bound_loop_left [of len c xs first val, OF pos False])
    qed
  qed
qed

lemma weakly_sorted_partitioned:
  assumes "strict_weak_order c" "sorted_wrt (\<lambda>a b. \<not> c b a) xs"
  shows "\<forall>i j. i \<le> j \<and> j < length xs \<and> c (xs ! j) val \<longrightarrow> c (xs ! i) val"
proof (intro allI impI)
  fix i j assume h: "i \<le> j \<and> j < length xs \<and> c (xs ! j) val"
  show "c (xs ! i) val"
  proof (cases "i = j")
    case True
    with h show ?thesis by simp
  next
    case False
    with h have "i < j" by simp
    with h have "\<not> c (xs ! j) (xs ! i)" using sorted_wrt_nth_less [OF assms(2), of i j] by simp
    with h show ?thesis using swo_le_less [OF assms(1)] by blast
  qed
qed

lemma std_lower_bound_nth:
  assumes "strict_weak_order c" "sorted_wrt (\<lambda>a b. \<not> c b a) xs"
  shows "std_lower_bound c xs val \<le> length xs \<and>
         (\<forall>i < std_lower_bound c xs val. c (xs ! i) val) \<and>
         (\<forall>i. std_lower_bound c xs val \<le> i \<and> i < length xs \<longrightarrow> \<not> c (xs ! i) val)"
  unfolding std_lower_bound_def
  by (rule lower_bound_loop_partition [OF weakly_sorted_partitioned [OF assms]]) auto

lemma std_lower_bound_unique:
  assumes "strict_weak_order c" "sorted_wrt (\<lambda>a b. \<not> c b a) xs" "h \<le> length xs"
    "\<forall>i<h. c (xs ! i) val" "\<forall>i. h \<le> i \<and> i < length xs \<longrightarrow> \<not> c (xs ! i) val"
  shows "std_lower_bound c xs val = h"
proof -
  let ?r = "std_lower_bound c xs val"
  note r = std_lower_bound_nth [OF assms(1,2), of val]
  have "\<not> ?r < h"
  proof
    assume "?r < h"
    with assms(3,4) r show False by auto
  qed
  moreover have "\<not> h < ?r"
  proof
    assume "h < ?r"
    with assms(5) r show False by auto
  qed
  ultimately show ?thesis by simp
qed

lemma std_lower_bound_set:
  assumes "strict_weak_order c" "sorted_wrt (\<lambda>a b. \<not> c b a) xs"
  shows "(\<forall>x\<in>set (take (std_lower_bound c xs val) xs). c x val) \<and>
         (\<forall>x\<in>set (drop (std_lower_bound c xs val) xs). \<not> c x val)"
proof -
  let ?r = "std_lower_bound c xs val"
  note r = std_lower_bound_nth [OF assms, of val]
  have "c x val" if "x \<in> set (take ?r xs)" for x
  proof -
    from that obtain i where "i < length (take ?r xs)" "x = take ?r xs ! i"
      by (auto simp: in_set_conv_nth)
    with r show ?thesis by simp
  qed
  moreover have "\<not> c x val" if "x \<in> set (drop ?r xs)" for x
  proof -
    from that obtain i where i: "i < length (drop ?r xs)" "x = drop ?r xs ! i"
      by (auto simp: in_set_conv_nth)
    then have "x = xs ! (?r + i)" "?r + i < length xs" using r by auto
    with r show ?thesis by simp
  qed
  ultimately show ?thesis by blast
qed

lemma strict_sorted_weak:
  "strict_weak_order c \<Longrightarrow> sorted_wrt c xs \<Longrightarrow> sorted_wrt (\<lambda>a b. \<not> c b a) xs"
  by (simp add: strict_sorted_iff)

text \<open>In a strictly ascending vector an element equivalent to the key sits at the lower bound.\<close>

lemma std_lower_bound_present:
  assumes swo: "strict_weak_order c" and srt: "sorted_wrt c xs"
    and x: "x \<in> set xs" "\<not> c x val" "\<not> c val x"
  shows "std_lower_bound c xs val < length xs \<and> xs ! std_lower_bound c xs val = x"
proof -
  let ?r = "std_lower_bound c xs val"
  note r = std_lower_bound_nth [OF swo strict_sorted_weak [OF swo srt], of val]
  from x(1) obtain i where i: "i < length xs" "xs ! i = x" by (auto simp: in_set_conv_nth)
  have "\<not> i < ?r" using r i x(2) by auto
  then have ri: "?r \<le> i" by simp
  have "\<not> ?r < i"
  proof
    assume lt: "?r < i"
    with i have "c (xs ! ?r) x" using sorted_wrt_nth_less [OF srt, of ?r i] by simp
    then have "c (xs ! ?r) val" using swo_less_le [OF swo] x(3) by blast
    moreover have "\<not> c (xs ! ?r) val" using r lt i by auto
    ultimately show False by simp
  qed
  with ri i show ?thesis by simp
qed

lemma vector_insert_sorted:
  assumes swo: "strict_weak_order c" and srt: "sorted_wrt c xs"
    and absent: "\<forall>x\<in>set xs. c x val \<or> c val x"
  shows "sorted_wrt c (vector_insert xs (std_lower_bound c xs val) val)"
proof -
  let ?r = "std_lower_bound c xs val"
  note s = std_lower_bound_set [OF swo strict_sorted_weak [OF swo srt], of val]
  have xs: "xs = take ?r xs @ drop ?r xs" by simp
  have a: "sorted_wrt c (take ?r xs)" "sorted_wrt c (drop ?r xs)"
    and b: "\<forall>x\<in>set (take ?r xs). \<forall>y\<in>set (drop ?r xs). c x y"
    using srt xs by (metis sorted_wrt_append)+
  have d: "\<forall>y\<in>set (drop ?r xs). c val y"
    using s absent by (meson in_set_dropD)
  show ?thesis
    unfolding vector_insert_def using a b d s by (auto simp: sorted_wrt_append)
qed

section \<open>Invariants, validation and single insertion\<close>

lemma equivalent_eq: "equivalent sv = (\<lambda>a b. \<not> comp_sv sv a b \<and> \<not> comp_sv sv b a)"
  by (intro ext) (simp add: equivalent_def)

lemma well_formed_iff:
  "well_formed sv \<longleftrightarrow> strict_weak_order (comp_sv sv) \<and> sorted_wrt (comp_sv sv) (storage sv)"
  unfolding well_formed_def I1_def I2_def equivalent_def
  using strict_sorted_iff [of "comp_sv sv" "storage sv"] by blast

lemma std_validate_iff:
  assumes "strict_weak_order c"
  shows "std_is_sorted c xs \<and> std_adjacent_find (\<lambda>a b. \<not> c a b \<and> \<not> c b a) xs = length xs
         \<longleftrightarrow> sorted_wrt c xs"
proof (induction xs rule: induct_list012)
  case 1
  show ?case by simp
next
  case (2 x)
  show ?case by simp
next
  case (3 x y zs)
  have tr: "c x z" if "c x y" "\<forall>z\<in>set zs. c y z" "z \<in> set zs" for z
    using that swo_trans [OF assms] by blast
  have as: "\<not> c y x" if "c x y" using that swo_asym [OF assms] by blast
  from 3(2) show ?case using tr as by auto
qed

lemma validate_iff:
  "strict_weak_order (comp_sv sv) \<Longrightarrow> validate sv \<longleftrightarrow> I1 sv \<and> I2 sv"
  using std_validate_iff [of "comp_sv sv" "storage sv"]
    strict_sorted_iff [of "comp_sv sv" "storage sv"]
  by (simp add: validate_def I1_def I2_def equivalent_eq end_sv_def)

lemma well_formed_validate: "well_formed sv \<Longrightarrow> validate sv"
  using validate_iff [of sv] by (simp add: well_formed_def)

lemma present_iff: "present sv k \<longleftrightarrow> (\<exists>x\<in>set (storage sv). \<not> comp_sv sv x k \<and> \<not> comp_sv sv k x)"
  by (simp add: present_def list_ex_iff equivalent_def)

lemma insert_sv_present:
  assumes "well_formed sv" "present sv v"
  shows "insert_sv sv v = (sv, (lower_bound sv v, False)) \<and> lower_bound sv v < size_sv sv \<and>
         equivalent sv (storage sv ! lower_bound sv v) v"
proof -
  from assms(1) have swo: "strict_weak_order (comp_sv sv)"
    and srt: "sorted_wrt (comp_sv sv) (storage sv)" by (simp_all add: well_formed_iff)
  from assms(2) obtain x where x: "x \<in> set (storage sv)" "\<not> comp_sv sv x v" "\<not> comp_sv sv v x"
    by (auto simp: present_iff)
  from std_lower_bound_present [OF swo srt x]
  show ?thesis using x by (simp add: insert_sv_def lower_bound_def end_sv_def size_sv_def equivalent_def)
qed

lemma insert_sv_absent:
  assumes "well_formed sv" "\<not> present sv v"
  shows "insert_sv sv v =
           (sv\<lparr>storage := vector_insert (storage sv) (lower_bound sv v) v\<rparr>, (lower_bound sv v, True))
         \<and> lower_bound sv v \<le> size_sv sv
         \<and> well_formed (sv\<lparr>storage := vector_insert (storage sv) (lower_bound sv v) v\<rparr>)"
proof -
  from assms(1) have swo: "strict_weak_order (comp_sv sv)"
    and srt: "sorted_wrt (comp_sv sv) (storage sv)" by (simp_all add: well_formed_iff)
  from assms(2) have ab: "\<forall>x\<in>set (storage sv). comp_sv sv x v \<or> comp_sv sv v x"
    by (auto simp: present_iff)
  note r = std_lower_bound_nth [OF swo strict_sorted_weak [OF swo srt], of v]
  have "\<not> (lower_bound sv v \<noteq> end_sv sv \<and> equivalent sv (storage sv ! lower_bound sv v) v)"
  proof
    assume h: "lower_bound sv v \<noteq> end_sv sv \<and> equivalent sv (storage sv ! lower_bound sv v) v"
    with r have "lower_bound sv v < length (storage sv)" by (simp add: lower_bound_def end_sv_def)
    then have "storage sv ! lower_bound sv v \<in> set (storage sv)" by simp
    with ab h show False by (auto simp: equivalent_def)
  qed
  then have "insert_sv sv v =
      (sv\<lparr>storage := vector_insert (storage sv) (lower_bound sv v) v\<rparr>, (lower_bound sv v, True))"
    by (simp add: insert_sv_def Let_def)
  moreover have "lower_bound sv v \<le> size_sv sv" using r by (simp add: lower_bound_def size_sv_def)
  moreover have "well_formed (sv\<lparr>storage := vector_insert (storage sv) (lower_bound sv v) v\<rparr>)"
    using vector_insert_sorted [OF swo srt ab] swo by (simp add: well_formed_iff lower_bound_def)
  ultimately show ?thesis by simp
qed

lemma insert_sv_well_formed: "well_formed sv \<Longrightarrow> well_formed (fst (insert_sv sv v))"
  using insert_sv_present [of sv v] insert_sv_absent [of sv v] by (cases "present sv v") simp_all

lemma insert_sv_comp: "comp_sv (fst (insert_sv sv v)) = comp_sv sv"
  by (simp add: insert_sv_def Let_def)

lemma insert_sv_makes_present:
  assumes "well_formed sv"
  shows "present (fst (insert_sv sv v)) v"
proof (cases "present sv v")
  case True
  with insert_sv_present [OF assms] show ?thesis by simp
next
  case False
  have "\<not> comp_sv sv v v" using assms swo_irrefl [of "comp_sv sv" v] by (simp add: well_formed_def)
  then show ?thesis using insert_sv_absent [OF assms False]
    by (auto simp: present_iff vector_insert_def)
qed

section \<open>Sorting and deduplication\<close>

lemma mset_linear_insert: "mset (linear_insert c v xs) = add_mset v (mset xs)"
  by (induction xs) simp_all

lemma set_linear_insert: "set (linear_insert c v xs) = insert v (set xs)"
  by (induction xs) auto

lemma mset_foldl_linear_insert:
  "mset (foldl (\<lambda>acc val. linear_insert c val acc) acc xs) = mset acc + mset xs"
  by (induction xs arbitrary: acc) (simp_all add: mset_linear_insert)

lemma mset_std_sort: "mset (std_sort c xs) = mset xs"
  by (simp add: std_sort_def mset_foldl_linear_insert)

lemma set_std_sort: "set (std_sort c xs) = set xs"
  using mset_std_sort [of c xs] by (metis set_mset_mset)

lemma linear_insert_sorted:
  assumes swo: "strict_weak_order c"
  shows "sorted_wrt (\<lambda>a b. \<not> c b a) xs \<Longrightarrow> sorted_wrt (\<lambda>a b. \<not> c b a) (linear_insert c v xs)"
proof (induction xs)
  case Nil
  show ?case by simp
next
  case (Cons x xs)
  show ?case
  proof (cases "c v x")
    case True
    have "\<not> c y v" if "y \<in> set (x # xs)" for y
    proof -
      have "\<not> c y x" using that Cons.prems swo_irrefl [OF swo] by auto
      with True have "c v y" using swo_less_le [OF swo] by blast
      then show ?thesis using swo_asym [OF swo] by blast
    qed
    with True Cons.prems show ?thesis by simp
  next
    case False
    with Cons show ?thesis by (auto simp: set_linear_insert)
  qed
qed

lemma foldl_linear_insert_sorted:
  assumes swo: "strict_weak_order c"
  shows "sorted_wrt (\<lambda>a b. \<not> c b a) acc \<Longrightarrow>
         sorted_wrt (\<lambda>a b. \<not> c b a) (foldl (\<lambda>acc val. linear_insert c val acc) acc xs)"
  by (induction xs arbitrary: acc) (simp_all add: linear_insert_sorted [OF swo])

lemma std_sort_sorted:
  "strict_weak_order c \<Longrightarrow> sorted_wrt (\<lambda>a b. \<not> c b a) (std_sort c xs)"
  by (simp add: std_sort_def foldl_linear_insert_sorted)

lemma std_unique_head: "std_unique p (x # xs) \<noteq> [] \<and> hd (std_unique p (x # xs)) = x"
  by (induction xs arbitrary: x) simp_all

lemma std_unique_head_in: "x \<in> set (std_unique p (x # xs))"
  using std_unique_head [of p x xs] by (metis list.set_sel(1))

lemma set_std_unique: "set (std_unique p xs) \<subseteq> set xs"
  by (induction p xs rule: std_unique.induct) auto

lemma std_unique_covers:
  assumes "\<And>a. p a a"
  shows "\<forall>x\<in>set xs. \<exists>y\<in>set (std_unique p xs). p y x"
  using assms
proof (induction p xs rule: std_unique.induct)
  case (1 p)
  show ?case by simp
next
  case (2 p x)
  then show ?case by simp
next
  case (3 p x y ys)
  show ?case
  proof (cases "p x y")
    case True
    then have eq: "std_unique p (x # y # ys) = std_unique p (x # ys)" by simp
    from 3(1) [OF True 3(3)]
    have ih: "\<forall>z\<in>set (x # ys). \<exists>k\<in>set (std_unique p (x # ys)). p k z" .
    have hd: "x \<in> set (std_unique p (x # ys))" by (rule std_unique_head_in)
    show ?thesis
      unfolding eq
    proof
      fix z assume "z \<in> set (x # y # ys)"
      then consider "z = y" | "z \<in> set (x # ys)" by auto
      then show "\<exists>k\<in>set (std_unique p (x # ys)). p k z"
      proof cases
        case 1
        with True hd show ?thesis by blast
      next
        case 2
        with ih show ?thesis by blast
      qed
    qed
  next
    case False
    then have eq: "std_unique p (x # y # ys) = x # std_unique p (y # ys)" by simp
    from 3(2) [OF False 3(3)]
    have ih: "\<forall>z\<in>set (y # ys). \<exists>k\<in>set (std_unique p (y # ys)). p k z" .
    show ?thesis
      unfolding eq
    proof
      fix z assume "z \<in> set (x # y # ys)"
      then consider "z = x" | "z \<in> set (y # ys)" by auto
      then show "\<exists>k\<in>set (x # std_unique p (y # ys)). p k z"
      proof cases
        case 1
        with 3(3) [of x] show ?thesis by simp
      next
        case 2
        with ih obtain k where "k \<in> set (std_unique p (y # ys))" "p k z" by blast
        then show ?thesis by (meson list.set_intros(2))
      qed
    qed
  qed
qed

lemma std_unique_sorted_aux:
  assumes swo: "strict_weak_order c"
  shows "p = (\<lambda>a b. \<not> c a b \<and> \<not> c b a) \<Longrightarrow> sorted_wrt (\<lambda>a b. \<not> c b a) xs \<Longrightarrow>
         sorted_wrt c (std_unique p xs)"
proof (induction p xs rule: std_unique.induct)
  case (1 p)
  show ?case by simp
next
  case (2 p x)
  show ?case by simp
next
  case (3 p x y zs)
  show ?case
  proof (cases "p x y")
    case True
    have "sorted_wrt (\<lambda>a b. \<not> c b a) (x # zs)" using 3(4) by simp
    from 3(1) [OF True 3(3) this] True show ?thesis by simp
  next
    case False
    have xy: "c x y" using False 3(3,4) by auto
    have "sorted_wrt (\<lambda>a b. \<not> c b a) (y # zs)" using 3(4) by simp
    from 3(2) [OF False 3(3) this] have tl: "sorted_wrt c (std_unique p (y # zs))" .
    have "c x z" if "z \<in> set (std_unique p (y # zs))" for z
    proof -
      from that have "z \<in> set (y # zs)" using set_std_unique [of p "y # zs"] by blast
      then have "z = y \<or> \<not> c z y" using 3(4) by auto
      with xy show ?thesis using swo_less_le [OF swo] by blast
    qed
    with False tl show ?thesis by simp
  qed
qed

lemma std_unique_sorted:
  "strict_weak_order c \<Longrightarrow> sorted_wrt (\<lambda>a b. \<not> c b a) xs \<Longrightarrow>
   sorted_wrt c (std_unique (\<lambda>a b. \<not> c a b \<and> \<not> c b a) xs)"
  by (rule std_unique_sorted_aux) simp_all

section \<open>The members of the container\<close>

lemma sort_unique_well_formed:
  assumes "strict_weak_order (comp_sv sv)"
  shows "well_formed (sort_unique sv)"
  using std_unique_sorted [OF assms std_sort_sorted [OF assms], of "storage sv"] assms
  by (simp add: well_formed_iff sort_unique_def equivalent_eq)

lemma sort_unique_subset: "set (storage (sort_unique sv)) \<subseteq> set (storage sv)"
  using set_std_unique [of "equivalent sv" "std_sort (comp_sv sv) (storage sv)"]
  by (simp add: sort_unique_def set_std_sort)

lemma sort_unique_comp: "comp_sv (sort_unique sv) = comp_sv sv"
  by (simp add: sort_unique_def)

lemma sort_unique_present:
  assumes "strict_weak_order (comp_sv sv)" "v \<in> set (storage sv)"
  shows "present (sort_unique sv) v"
proof -
  have "\<And>a. equivalent sv a a" using swo_irrefl [OF assms(1)] by (simp add: equivalent_def)
  from std_unique_covers [of "equivalent sv" "std_sort (comp_sv sv) (storage sv)", OF this] assms(2)
  obtain y where "y \<in> set (std_unique (equivalent sv) (std_sort (comp_sv sv) (storage sv)))"
    "equivalent sv y v" by (auto simp: set_std_sort)
  then show ?thesis by (auto simp: present_iff sort_unique_def equivalent_def)
qed

lemma sorted_wrt_take_drop:
  assumes "sorted_wrt P xs" "i \<le> j"
  shows "sorted_wrt P (take i xs @ drop j xs)"
proof -
  have "xs = take i xs @ drop i xs" by simp
  with assms(1) have a: "sorted_wrt P (take i xs)"
    and b: "\<forall>x\<in>set (take i xs). \<forall>y\<in>set (drop i xs). P x y"
    by (metis sorted_wrt_append)+
  have "set (drop j xs) \<subseteq> set (drop i xs)" using assms(2) by (simp add: set_drop_subset_set_drop)
  with a b sorted_wrt_drop [OF assms(1), of j] show ?thesis
    by (auto simp: sorted_wrt_append)
qed

lemma erase_pos_well_formed: "well_formed sv \<Longrightarrow> well_formed (erase_pos sv pos)"
  by (simp add: well_formed_iff erase_pos_def vector_erase_def sorted_wrt_take_drop)

lemma erase_range_well_formed:
  "well_formed sv \<Longrightarrow> first \<le> lst \<Longrightarrow> well_formed (erase_range sv first lst)"
  by (simp add: well_formed_iff erase_range_def vector_erase_range_def sorted_wrt_take_drop)

lemma erase_well_formed: "well_formed sv \<Longrightarrow> well_formed (fst (erase sv key))"
  by (simp add: well_formed_iff erase_def Let_def vector_erase_def sorted_wrt_take_drop)

lemma clear_well_formed: "strict_weak_order (comp_sv sv) \<Longrightarrow> well_formed (clear sv)"
  by (simp add: well_formed_iff clear_def)

text \<open>With arguments that are left as they were, \<open>emplace\<close> changes the container as \<open>insert\<close> does.\<close>

lemma emplace_eq_insert_sv: "fst (emplace sv v v) = fst (insert_sv sv v)"
  by (simp add: emplace_def insert_sv_def Let_def)

text \<open>
  With arguments that building \<open>tmp\<close> has emptied, the element stored is not the one the
  position was searched for.
\<close>

lemma emplace_moved_from_arguments:
  "storage (fst (emplace \<lparr>storage = [1, 3 :: int], comp_sv = (<)\<rparr> 2 0)) = [1, 0, 3] \<and>
   \<not> validate (fst (emplace \<lparr>storage = [1, 3 :: int], comp_sv = (<)\<rparr> 2 0))"
  by (simp add: emplace_def lower_bound_def std_lower_bound_def lower_bound_loop.simps
      end_sv_def equivalent_def vector_insert_def validate_def)

text \<open>What \<open>find\<close> computes on a well-formed container.\<close>

lemma find_sv_well_formed:
  assumes "well_formed sv"
  shows "find_sv sv k = (if present sv k then end_sv sv else lower_bound sv k)"
proof -
  from assms have swo: "strict_weak_order (comp_sv sv)"
    and srt: "sorted_wrt (comp_sv sv) (storage sv)" by (simp_all add: well_formed_iff)
  note r = std_lower_bound_nth [OF swo strict_sorted_weak [OF swo srt], of k]
  show ?thesis
  proof (cases "present sv k")
    case True
    from insert_sv_present [OF assms True] True show ?thesis
      by (simp add: find_sv_def Let_def equivalent_def end_sv_def size_sv_def)
  next
    case False
    show ?thesis
    proof (cases "lower_bound sv k = end_sv sv")
      case True
      with False show ?thesis by (simp add: find_sv_def)
    next
      case ne: False
      with r have lt: "lower_bound sv k < length (storage sv)"
        by (simp add: lower_bound_def end_sv_def)
      then have "storage sv ! lower_bound sv k \<in> set (storage sv)" by simp
      moreover have "\<not> comp_sv sv (storage sv ! lower_bound sv k) k"
        using r lt by (simp add: lower_bound_def)
      ultimately have "comp_sv sv k (storage sv ! lower_bound sv k)"
        using False by (auto simp: present_iff)
      with False show ?thesis by (simp add: find_sv_def Let_def)
    qed
  qed
qed

lemma good_hint_lower_bound:
  assumes wf: "well_formed sv" and h: "hint \<le> end_sv sv" and g: "good_hint sv hint v"
  shows "lower_bound sv v = hint \<and> \<not> present sv v"
proof -
  let ?c = "comp_sv sv" and ?xs = "storage sv"
  from wf have swo: "strict_weak_order ?c" and srt: "sorted_wrt ?c ?xs"
    by (simp_all add: well_formed_iff)
  from g have g1: "hint = 0 \<or> ?c (?xs ! (hint - 1)) v"
    and g2: "hint = length ?xs \<or> ?c v (?xs ! hint)"
    by (auto simp: good_hint_def greater_sv_def end_sv_def split: if_splits)
  have below: "?c (?xs ! i) v" if "i < hint" for i
  proof (cases "i = hint - 1")
    case True
    with g1 that show ?thesis by auto
  next
    case False
    with that h have "i < hint - 1" "hint - 1 < length ?xs" by (auto simp: end_sv_def)
    then have "?c (?xs ! i) (?xs ! (hint - 1))" using sorted_wrt_nth_less [OF srt] by blast
    with g1 that show ?thesis using swo_trans [OF swo] by (metis not_less_zero)
  qed
  have above: "?c v (?xs ! i)" if "hint \<le> i" "i < length ?xs" for i
  proof (cases "i = hint")
    case True
    with g2 that show ?thesis by auto
  next
    case False
    with that have "hint < i" by simp
    then have "?c (?xs ! hint) (?xs ! i)" using sorted_wrt_nth_less [OF srt _ that(2)] by blast
    moreover have "?c v (?xs ! hint)" using g2 that by auto
    ultimately show ?thesis using swo_trans [OF swo] by blast
  qed
  have above': "\<not> ?c (?xs ! i) v" if "hint \<le> i" "i < length ?xs" for i
    using above [OF that] swo_asym [OF swo] by blast
  have lb: "lower_bound sv v = hint"
    unfolding lower_bound_def
    using std_lower_bound_unique [OF swo strict_sorted_weak [OF swo srt], of hint v]
      h below above' by (simp add: end_sv_def)
  have "\<not> present sv v"
  proof
    assume "present sv v"
    then obtain i where i: "i < length ?xs" "\<not> ?c (?xs ! i) v" "\<not> ?c v (?xs ! i)"
      by (auto simp: present_iff in_set_conv_nth)
    show False
    proof (cases "i < hint")
      case True
      with below i show False by blast
    next
      case False
      with above [of i] i show False by simp
    qed
  qed
  with lb show ?thesis by simp
qed

text \<open>
  The statements of the hinted insert leave the container as \<open>insert(value)\<close> does; the call
  itself never reaches a \<open>return\<close>.
\<close>

lemma insert_hint_body_eq:
  assumes "well_formed sv" "hint \<le> end_sv sv"
  shows "fst (insert_hint_body sv hint v) = fst (insert_sv sv v)"
proof (cases "good_hint sv hint v")
  case True
  from good_hint_lower_bound [OF assms True] insert_sv_absent [OF assms(1), of v] True
  show ?thesis by (simp add: insert_hint_body_def)
next
  case False
  then show ?thesis by (simp add: insert_hint_body_def)
qed

lemma insert_hint_undefined: "insert_hint sv hint v = None"
  by (simp add: insert_hint_def insert_hint_body_def value_returning_call_def)

lemma assign_ilist_undefined: "assign_ilist sv ilist = None"
  by (simp add: assign_ilist_def assign_ilist_body_def value_returning_call_def)

lemma set_vector_insert: "set (vector_insert xs i v) = insert v (set xs)"
proof -
  have "set (take i xs) \<union> set (drop i xs) = set xs" by (metis append_take_drop_id set_append)
  then show ?thesis by (auto simp: vector_insert_def)
qed

lemma set_insert_sv:
  "set (storage sv) \<subseteq> set (storage (fst (insert_sv sv v))) \<and>
   set (storage (fst (insert_sv sv v))) \<subseteq> insert v (set (storage sv))"
  by (auto simp: insert_sv_def Let_def set_vector_insert)

lemma present_mono:
  "comp_sv s' = comp_sv s \<Longrightarrow> set (storage s) \<subseteq> set (storage s') \<Longrightarrow> present s k \<Longrightarrow> present s' k"
  by (auto simp: present_iff)

lemma foldl_insert_sv:
  "well_formed s \<Longrightarrow>
   well_formed (foldl (\<lambda>s v. fst (insert_sv s v)) s vs) \<and>
   comp_sv (foldl (\<lambda>s v. fst (insert_sv s v)) s vs) = comp_sv s \<and>
   set (storage s) \<subseteq> set (storage (foldl (\<lambda>s v. fst (insert_sv s v)) s vs)) \<and>
   set (storage (foldl (\<lambda>s v. fst (insert_sv s v)) s vs)) \<subseteq> set (storage s) \<union> set vs \<and>
   (\<forall>v\<in>set vs. present (foldl (\<lambda>s v. fst (insert_sv s v)) s vs) v)"
proof (induction vs arbitrary: s)
  case Nil
  then show ?case by simp
next
  case (Cons a vs)
  let ?s1 = "fst (insert_sv s a)"
  let ?r = "foldl (\<lambda>s v. fst (insert_sv s v)) ?s1 vs"
  have wf1: "well_formed ?s1" by (rule insert_sv_well_formed [OF Cons.prems])
  note ih = Cons.IH [OF wf1]
  note st = set_insert_sv [of s a]
  have c: "comp_sv ?r = comp_sv s" using ih by (simp add: insert_sv_comp)
  have "present ?s1 a" by (rule insert_sv_makes_present [OF Cons.prems])
  then have pa: "present ?r a" using ih present_mono [of ?r ?s1 a] by blast
  have sub1: "set (storage s) \<subseteq> set (storage ?r)" using ih st by blast
  have sub2: "set (storage ?r) \<subseteq> set (storage s) \<union> set (a # vs)" using ih st by auto
  from ih c pa sub1 sub2 show ?case by simp
qed

lemma insert_range_well_formed: "well_formed sv \<Longrightarrow> well_formed (insert_range sv vs)"
  using foldl_insert_sv [of sv vs] sort_unique_well_formed [of "sv\<lparr>storage := vs\<rparr>"]
  by (simp add: insert_range_def insert_each_def well_formed_def)

lemma apply_operation_well_formed:
  assumes "well_formed sv" "admissible sv x" "apply_operation sv x = Some sv'"
  shows "well_formed sv'"
proof (cases x)
  case (Op_assign other)
  with assms show ?thesis by simp
next
  case (Op_assign_ilist ilist)
  with assms show ?thesis by (simp add: assign_ilist_undefined)
next
  case Op_clear
  with assms clear_well_formed [of sv] show ?thesis by (auto simp: well_formed_def)
next
  case (Op_erase_pos pos)
  with assms erase_pos_well_formed [of sv pos] show ?thesis by (auto split: if_splits)
next
  case (Op_erase_range first lst)
  with assms erase_range_well_formed [of sv first lst] show ?thesis by (auto split: if_splits)
next
  case (Op_erase_key key)
  with assms erase_well_formed [of sv key] show ?thesis by auto
next
  case (Op_swap other)
  with assms show ?thesis by (auto simp: swap_sv_def well_formed_iff)
next
  case (Op_insert v)
  with assms insert_sv_well_formed [of sv v] show ?thesis by auto
next
  case (Op_insert_hint hint v)
  with assms show ?thesis by (simp add: insert_hint_undefined split: if_splits)
next
  case (Op_insert_range vs)
  with assms insert_range_well_formed [of sv vs] show ?thesis by auto
next
  case (Op_emplace tmp again)
  with assms insert_sv_well_formed [of sv tmp] show ?thesis
    by (auto simp: emplace_eq_insert_sv)
next
  case (Op_emplace_hint hint tmp again)
  with assms insert_sv_well_formed [of sv tmp] show ?thesis
    by (auto simp: emplace_hint_def emplace_eq_insert_sv Let_def)
qed

lemma run_operations_well_formed:
  "well_formed sv \<Longrightarrow> admissible_run sv xs \<Longrightarrow>
   \<exists>sv'. run_operations sv xs = Some sv' \<and> well_formed sv'"
proof (induction xs arbitrary: sv)
  case Nil
  then show ?case by simp
next
  case (Cons x xs)
  from Cons.prems(2) obtain s1 where s1: "apply_operation sv x = Some s1"
    and adm: "admissible sv x" "admissible_run s1 xs"
    by (auto split: option.splits)
  from apply_operation_well_formed [OF Cons.prems(1) adm(1) s1] have "well_formed s1" .
  from Cons.IH [OF this adm(2)] s1 show ?case by simp
qed

lemma admissible_run_take: "admissible_run sv xs \<Longrightarrow> admissible_run sv (take n xs)"
proof (induction xs arbitrary: sv n)
  case Nil
  then show ?case by simp
next
  case (Cons x xs)
  then show ?case by (cases n) (auto split: option.splits)
qed

text \<open>Every admissible run from a well-formed container validates after each call.\<close>

lemma run_operations_validate:
  assumes "well_formed sv" "admissible_run sv xs"
  shows "\<exists>sv'. run_operations sv (take n xs) = Some sv' \<and> validate sv'"
  using run_operations_well_formed [OF assms(1) admissible_run_take [OF assms(2), of n]]
    well_formed_validate by blast

lemma construct_from_well_formed: "strict_weak_order c \<Longrightarrow> well_formed (construct_from vs c)"
  using sort_unique_well_formed [of "\<lparr>storage = vs, comp_sv = c\<rparr>"] by (simp add: construct_from_def)

lemma construct_empty_well_formed: "strict_weak_order c \<Longrightarrow> well_formed (construct_empty c)"
  by (simp add: construct_empty_def well_formed_iff)

lemma strict_sorted_equiv_unique:
  assumes swo: "strict_weak_order c"
  shows "sorted_wrt c xs \<Longrightarrow> sorted_wrt c ys \<Longrightarrow>
         (\<forall>x\<in>set xs. \<exists>y\<in>set ys. \<not> c x y \<and> \<not> c y x) \<Longrightarrow>
         (\<forall>y\<in>set ys. \<exists>x\<in>set xs. \<not> c x y \<and> \<not> c y x) \<Longrightarrow>
         list_all2 (\<lambda>a b. \<not> c a b \<and> \<not> c b a) xs ys"
proof (induction xs arbitrary: ys)
  case Nil
  then show ?case by (cases ys) auto
next
  case (Cons x xs)
  from Cons.prems(3) obtain y ys' where ys: "ys = y # ys'" by (cases ys) auto
  have sx: "\<forall>z\<in>set xs. c x z" and sxs: "sorted_wrt c xs" using Cons.prems(1) by auto
  have sy: "\<forall>z\<in>set ys'. c y z" and sys: "sorted_wrt c ys'" using Cons.prems(2) ys by auto
  have nxy: "\<not> c x y"
  proof
    assume xy: "c x y"
    from Cons.prems(3) ys obtain z where z: "z = y \<or> z \<in> set ys'" "\<not> c x z" "\<not> c z x" by auto
    from z(1) sy have "z = y \<or> c y z" by blast
    with xy z(2) show False using swo_trans [OF swo] by blast
  qed
  have nyx: "\<not> c y x"
  proof
    assume yx: "c y x"
    from Cons.prems(4) ys obtain z where z: "z = x \<or> z \<in> set xs" "\<not> c z y" "\<not> c y z" by auto
    from z(1) sx have "z = x \<or> c x z" by blast
    with yx z(3) show False using swo_trans [OF swo] by blast
  qed
  have a: "\<exists>w\<in>set ys'. \<not> c z w \<and> \<not> c w z" if "z \<in> set xs" for z
  proof -
    from Cons.prems(3) that ys obtain w where w: "w = y \<or> w \<in> set ys'" "\<not> c z w" "\<not> c w z" by auto
    have "w \<noteq> y"
    proof
      assume "w = y"
      with w nxy nyx have "\<not> c x z" using swo_equiv_trans [OF swo, of x y z] by blast
      with sx that show False by blast
    qed
    with w show ?thesis by blast
  qed
  have b: "\<exists>z\<in>set xs. \<not> c z w \<and> \<not> c w z" if "w \<in> set ys'" for w
  proof -
    from Cons.prems(4) that ys obtain z where z: "z = x \<or> z \<in> set xs" "\<not> c z w" "\<not> c w z" by auto
    have "z \<noteq> x"
    proof
      assume "z = x"
      with z nxy nyx have "\<not> c y w" using swo_equiv_trans [OF swo, of y x w] by blast
      with sy that show False by blast
    qed
    with z show ?thesis by blast
  qed
  from Cons.IH [OF sxs sys] a b have "list_all2 (\<lambda>a b. \<not> c a b \<and> \<not> c b a) xs ys'" by blast
  with nxy nyx ys show ?case by simp
qed

lemma insert_range_empty:
  "empty_sv sv \<Longrightarrow> insert_range sv vs = construct_from vs (comp_sv sv)"
  by (cases sv) (simp add: insert_range_def construct_from_def empty_sv_def)

lemma assign_ilist_body_eq: "fst (assign_ilist_body sv vs) = construct_from vs (comp_sv sv)"
  by (cases sv) (simp add: assign_ilist_body_def construct_from_def)

text \<open>
  Insertion sort meets the contract of \<open>std::sort\<close>, and the normalised vector does not
  depend on the sort beyond equivalence.
\<close>

lemma std_sort_conforming: "conforming_sort std_sort"
  by (simp add: conforming_sort_def mset_std_sort std_sort_sorted)

lemma sort_unique_any_sort:
  assumes srt: "conforming_sort srt" and swo: "strict_weak_order c"
  shows "list_all2 (\<lambda>a b. \<not> c a b \<and> \<not> c b a)
           (std_unique (\<lambda>a b. \<not> c a b \<and> \<not> c b a) (srt c xs))
           (std_unique (\<lambda>a b. \<not> c a b \<and> \<not> c b a) (std_sort c xs)) \<and>
         (equal_when_equivalent c \<longrightarrow>
           std_unique (\<lambda>a b. \<not> c a b \<and> \<not> c b a) (srt c xs) =
           std_unique (\<lambda>a b. \<not> c a b \<and> \<not> c b a) (std_sort c xs))"
proof -
  let ?p = "\<lambda>a b. \<not> c a b \<and> \<not> c b a"
  let ?l = "std_unique ?p (srt c xs)" and ?r = "std_unique ?p (std_sort c xs)"
  from srt swo have ms: "mset (srt c xs) = mset xs"
    and so: "sorted_wrt (\<lambda>a b. \<not> c b a) (srt c xs)" by (simp_all add: conforming_sort_def)
  from ms have st: "set (srt c xs) = set xs" by (metis set_mset_mset)
  have refl: "\<And>a. ?p a a" using swo_irrefl [OF swo] by simp
  have sl: "sorted_wrt c ?l" by (rule std_unique_sorted [OF swo so])
  have sr: "sorted_wrt c ?r" by (rule std_unique_sorted [OF swo std_sort_sorted [OF swo]])
  have subl: "set ?l \<subseteq> set xs" using set_std_unique [of ?p "srt c xs"] st by simp
  have subr: "set ?r \<subseteq> set xs" using set_std_unique [of ?p "std_sort c xs"] by (simp add: set_std_sort)
  have covl: "\<forall>x\<in>set xs. \<exists>y\<in>set ?l. ?p y x"
    using std_unique_covers [of ?p "srt c xs", OF refl] st by simp
  have covr: "\<forall>x\<in>set xs. \<exists>y\<in>set ?r. ?p y x"
    using std_unique_covers [of ?p "std_sort c xs", OF refl] by (simp add: set_std_sort)
  have c1: "\<forall>x\<in>set ?l. \<exists>y\<in>set ?r. \<not> c x y \<and> \<not> c y x" using subl covr by blast
  have c2: "\<forall>y\<in>set ?r. \<exists>x\<in>set ?l. \<not> c x y \<and> \<not> c y x" using subr covl by blast
  from strict_sorted_equiv_unique [OF swo sl sr c1 c2]
  have l: "list_all2 ?p ?l ?r" .
  have "?l = ?r" if "equal_when_equivalent c"
  proof -
    from that have "\<And>a b. \<not> c a b \<and> \<not> c b a \<Longrightarrow> a = b" by (simp add: equal_when_equivalent_def)
    with l have "list_all2 (=) ?l ?r" by (rule list_all2_mono)
    then show ?thesis by (simp add: list_all2_eq)
  qed
  with l show ?thesis by simp
qed

lemma construct_from_props:
  assumes "strict_weak_order c"
  shows "well_formed (construct_from vs c) \<and> comp_sv (construct_from vs c) = c \<and>
         set (storage (construct_from vs c)) \<subseteq> set vs \<and>
         (\<forall>v\<in>set vs. present (construct_from vs c) v)"
  using construct_from_well_formed [OF assms, of vs]
    sort_unique_subset [of "\<lparr>storage = vs, comp_sv = c\<rparr>"]
    sort_unique_present [of "\<lparr>storage = vs, comp_sv = c\<rparr>"] assms
  by (simp add: construct_from_def sort_unique_comp)

lemma insert_each_props:
  assumes "strict_weak_order c"
  shows "well_formed (insert_each (construct_empty c) vs) \<and>
         comp_sv (insert_each (construct_empty c) vs) = c \<and>
         set (storage (insert_each (construct_empty c) vs)) \<subseteq> set vs \<and>
         (\<forall>v\<in>set vs. present (insert_each (construct_empty c) vs) v)"
  using foldl_insert_sv [OF construct_empty_well_formed [OF assms], of vs]
  by (simp add: insert_each_def construct_empty_def)

lemma bulk_incremental_equivalent:
  assumes swo: "strict_weak_order c" and eq: "set ys = set xs"
  shows "list_all2 (\<lambda>a b. \<not> c a b \<and> \<not> c b a)
           (storage (insert_range (construct_empty c) xs))
           (storage (insert_each (construct_empty c) ys))"
proof -
  let ?b = "insert_range (construct_empty c) xs" and ?i = "insert_each (construct_empty c) ys"
  have be: "?b = construct_from xs c"
    using insert_range_empty [of "construct_empty c" xs] by (simp add: construct_empty_def empty_sv_def)
  note bp = construct_from_props [OF swo, of xs] and ip = insert_each_props [OF swo, of ys]
  have sb: "sorted_wrt c (storage ?b)" using bp be by (auto simp: well_formed_iff)
  have si: "sorted_wrt c (storage ?i)" using ip by (auto simp: well_formed_iff)
  have c1: "\<forall>x\<in>set (storage ?b). \<exists>y\<in>set (storage ?i). \<not> c x y \<and> \<not> c y x"
  proof
    fix x assume "x \<in> set (storage ?b)"
    with bp be eq have "x \<in> set ys" by auto
    with ip have "present ?i x" by blast
    with ip show "\<exists>y\<in>set (storage ?i). \<not> c x y \<and> \<not> c y x" by (auto simp: present_iff)
  qed
  have c2: "\<forall>y\<in>set (storage ?i). \<exists>x\<in>set (storage ?b). \<not> c x y \<and> \<not> c y x"
  proof
    fix y assume "y \<in> set (storage ?i)"
    with ip eq have "y \<in> set xs" by auto
    with bp be have "present ?b y" by simp
    with bp be show "\<exists>x\<in>set (storage ?b). \<not> c x y \<and> \<not> c y x" by (auto simp: present_iff)
  qed
  from strict_sorted_equiv_unique [OF swo sb si c1 c2] show ?thesis .
qed

lemma I1_nth:
  "I1 sv \<longleftrightarrow> (\<forall>j < length (storage sv). \<forall>i < j. \<not> comp_sv sv (storage sv ! j) (storage sv ! i))"
  by (auto simp: I1_def sorted_wrt_iff_nth_less)

lemma I2_nth:
  "I2 sv \<longleftrightarrow> (\<forall>i < length (storage sv). \<forall>j < length (storage sv).
      i \<noteq> j \<longrightarrow> \<not> equivalent sv (storage sv ! i) (storage sv ! j))"
proof
  assume l: "I2 sv"
  show "\<forall>i < length (storage sv). \<forall>j < length (storage sv).
      i \<noteq> j \<longrightarrow> \<not> equivalent sv (storage sv ! i) (storage sv ! j)"
  proof (intro allI impI)
    fix i j assume h: "i < length (storage sv)" "j < length (storage sv)" "i \<noteq> j"
    then consider "i < j" | "j < i" by linarith
    then show "\<not> equivalent sv (storage sv ! i) (storage sv ! j)"
    proof cases
      case 1
      with l h show ?thesis by (simp add: I2_def sorted_wrt_iff_nth_less)
    next
      case 2
      with l h have "\<not> equivalent sv (storage sv ! j) (storage sv ! i)"
        by (simp add: I2_def sorted_wrt_iff_nth_less)
      then show ?thesis by (auto simp: equivalent_def)
    qed
  qed
next
  assume "\<forall>i < length (storage sv). \<forall>j < length (storage sv).
      i \<noteq> j \<longrightarrow> \<not> equivalent sv (storage sv ! i) (storage sv ! j)"
  then show "I2 sv" by (simp add: I2_def sorted_wrt_iff_nth_less)
qed

lemma swo_compare_first: "strict_weak_order compare_first"
  by (auto simp: strict_weak_order_def compare_first_def)

lemma equal_when_equivalent_int: "equal_when_equivalent ((<) :: int \<Rightarrow> int \<Rightarrow> bool)"
  by (auto simp: equal_when_equivalent_def)

lemma erase_well_formed_code:
  assumes "well_formed sv"
  shows "erase sv k =
    (if present sv k \<or> lower_bound sv k = end_sv sv then (sv, 0)
     else (sv\<lparr>storage := vector_erase (storage sv) (lower_bound sv k)\<rparr>, 1))"
  by (simp add: erase_def find_sv_well_formed [OF assms])

section \<open>Insertion\<close>

text \<open>
  C4. On a container that satisfies I1 and I2 (under a strict weak order), \<open>insert(v)\<close>
  looks up the lower bound of \<open>v\<close>: every element before it orders before \<open>v\<close> and no
  element from it on does. If an element equivalent to \<open>v\<close> is stored, it sits at that
  position, the container is returned unchanged and the result is that position with
  \<open>false\<close>. Otherwise \<open>v\<close> is placed at the lower bound, in front of the elements that
  were there, the size grows by one, and the result is that position with \<open>true\<close>.
\<close>

theorem insert_sv_spec:
  assumes "strict_weak_order (comp_sv sv)" "I1 sv" "I2 sv"
  shows "(\<forall>i < lower_bound sv v. comp_sv sv (storage sv ! i) v) \<and>
         (\<forall>i. lower_bound sv v \<le> i \<and> i < size_sv sv \<longrightarrow> \<not> comp_sv sv (storage sv ! i) v) \<and>
         (if present sv v
          then insert_sv sv v = (sv, (lower_bound sv v, False)) \<and>
               lower_bound sv v < size_sv sv \<and>
               equivalent sv (storage sv ! lower_bound sv v) v
          else insert_sv sv v =
                 (sv\<lparr>storage := take (lower_bound sv v) (storage sv) @ v #
                                   drop (lower_bound sv v) (storage sv)\<rparr>,
                  (lower_bound sv v, True)) \<and>
               lower_bound sv v \<le> size_sv sv \<and>
               storage (fst (insert_sv sv v)) ! lower_bound sv v = v \<and>
               size_sv (fst (insert_sv sv v)) = Suc (size_sv sv))"
proof -
  from assms have wf: "well_formed sv" by (simp add: well_formed_def)
  then have srt: "sorted_wrt (comp_sv sv) (storage sv)" by (simp add: well_formed_iff)
  note r = std_lower_bound_nth [OF assms(1) strict_sorted_weak [OF assms(1) srt], of v]
  have lb: "(\<forall>i < lower_bound sv v. comp_sv sv (storage sv ! i) v) \<and>
         (\<forall>i. lower_bound sv v \<le> i \<and> i < size_sv sv \<longrightarrow> \<not> comp_sv sv (storage sv ! i) v)"
    using r by (simp add: lower_bound_def size_sv_def)
  show ?thesis
  proof (cases "present sv v")
    case True
    with insert_sv_present [OF wf True] lb show ?thesis by simp
  next
    case False
    from insert_sv_absent [OF wf False]
    have eq: "insert_sv sv v =
        (sv\<lparr>storage := vector_insert (storage sv) (lower_bound sv v) v\<rparr>, (lower_bound sv v, True))"
      and le: "lower_bound sv v \<le> size_sv sv" by simp_all
    have nth: "vector_insert (storage sv) (lower_bound sv v) v ! lower_bound sv v = v"
      using le by (simp add: vector_insert_def size_sv_def nth_append)
    have len: "length (vector_insert (storage sv) (lower_bound sv v) v) = Suc (length (storage sv))"
      using le by (simp add: vector_insert_def size_sv_def)
    from False eq le nth len lb show ?thesis
      by (simp add: size_sv_def vector_insert_def)
  qed
qed

theorem insert_sv_spec_witness:
  "strict_weak_order (comp_sv \<lparr>storage = [1, 3 :: int], comp_sv = (<)\<rparr>) \<and>
   I1 \<lparr>storage = [1, 3 :: int], comp_sv = (<)\<rparr> \<and> I2 \<lparr>storage = [1, 3 :: int], comp_sv = (<)\<rparr> \<and>
   insert_sv \<lparr>storage = [1, 3 :: int], comp_sv = (<)\<rparr> 2
     = (\<lparr>storage = [1, 2, 3], comp_sv = (<)\<rparr>, (1, True)) \<and>
   insert_sv \<lparr>storage = [1, 3 :: int], comp_sv = (<)\<rparr> 3
     = (\<lparr>storage = [1, 3], comp_sv = (<)\<rparr>, (1, False))"
proof -
  let ?sv = "\<lparr>storage = [1, 3 :: int], comp_sv = (<)\<rparr>"
  have h: "strict_weak_order (comp_sv ?sv)" "I1 ?sv" "I2 ?sv"
    by (simp_all add: swo_less_int I1_def I2_def equivalent_def)
  have p: "\<not> present ?sv 2" "present ?sv 3" by (simp_all add: present_def equivalent_def)
  have l: "lower_bound ?sv 2 = 1" "lower_bound ?sv 3 = 1"
    by (simp_all add: lower_bound_def std_lower_bound_def lower_bound_loop.simps)
  from insert_sv_spec [OF h, of 2] insert_sv_spec [OF h, of 3] h p l
  show ?thesis by simp
qed

text \<open>
  C7. Inserting the same value twice: the second call leaves the container as the first
  call left it (the same object, hence the same keys and the same size) and reports
  \<open>false\<close>.
\<close>

theorem insert_sv_twice:
  assumes "strict_weak_order (comp_sv sv)" "I1 sv" "I2 sv"
  shows "fst (insert_sv (fst (insert_sv sv v)) v) = fst (insert_sv sv v) \<and>
         snd (snd (insert_sv (fst (insert_sv sv v)) v)) = False \<and>
         size_sv (fst (insert_sv (fst (insert_sv sv v)) v)) = size_sv (fst (insert_sv sv v)) \<and>
         set (storage (fst (insert_sv (fst (insert_sv sv v)) v))) = set (storage (fst (insert_sv sv v)))"
proof -
  from assms have wf: "well_formed sv" by (simp add: well_formed_def)
  from insert_sv_present [OF insert_sv_well_formed [OF wf, of v] insert_sv_makes_present [OF wf, of v]]
  show ?thesis by simp
qed

theorem insert_sv_twice_witness:
  "strict_weak_order (comp_sv \<lparr>storage = [1, 3 :: int], comp_sv = (<)\<rparr>) \<and>
   I1 \<lparr>storage = [1, 3 :: int], comp_sv = (<)\<rparr> \<and> I2 \<lparr>storage = [1, 3 :: int], comp_sv = (<)\<rparr> \<and>
   storage (fst (insert_sv \<lparr>storage = [1, 3 :: int], comp_sv = (<)\<rparr> 2)) = [1, 2, 3] \<and>
   storage (fst (insert_sv (fst (insert_sv \<lparr>storage = [1, 3 :: int], comp_sv = (<)\<rparr> 2)) 2)) = [1, 2, 3] \<and>
   snd (snd (insert_sv (fst (insert_sv \<lparr>storage = [1, 3 :: int], comp_sv = (<)\<rparr> 2)) 2)) = False"
proof -
  let ?sv = "\<lparr>storage = [1, 3 :: int], comp_sv = (<)\<rparr>"
  have h: "strict_weak_order (comp_sv ?sv)" "I1 ?sv" "I2 ?sv"
    by (simp_all add: swo_less_int I1_def I2_def equivalent_def)
  have s: "storage (fst (insert_sv ?sv 2)) = [1, 2, 3]"
    by (simp add: insert_sv_def lower_bound_def std_lower_bound_def lower_bound_loop.simps
        end_sv_def equivalent_def vector_insert_def)
  from insert_sv_twice [OF h, of 2] h s show ?thesis by simp
qed

text \<open>
  C5. \<open>insert(hint, v)\<close> is to leave the container that \<open>insert(v)\<close> leaves, for a good hint
  and for a bad one. The statements of both hinted overloads do so
  (\<open>insert_hint_body_eq\<close>), but the overloads are declared to return an iterator and end
  without a \<open>return\<close> statement in both branches, so every call has undefined behaviour
  (\<open>insert_hint_undefined\<close>). On the container \<open>{1, 3}\<close>, neither the good hint 1 nor the bad
  hint 2 gives a defined call for the value 2, while \<open>insert(2)\<close> returns with \<open>{1, 2, 3}\<close>.
\<close>

theorem insert_hint_no_return:
  "good_hint \<lparr>storage = [1, 3 :: int], comp_sv = (<)\<rparr> 1 2 \<and>
   insert_hint \<lparr>storage = [1, 3 :: int], comp_sv = (<)\<rparr> 1 2 = None \<and>
   \<not> good_hint \<lparr>storage = [1, 3 :: int], comp_sv = (<)\<rparr> 2 2 \<and>
   insert_hint \<lparr>storage = [1, 3 :: int], comp_sv = (<)\<rparr> 2 2 = None \<and>
   insert_sv \<lparr>storage = [1, 3 :: int], comp_sv = (<)\<rparr> 2
     = (\<lparr>storage = [1, 2, 3], comp_sv = (<)\<rparr>, (1, True))"
  by (simp add: insert_hint_def insert_hint_body_def value_returning_call_def good_hint_def
      greater_sv_def end_sv_def insert_sv_def lower_bound_def std_lower_bound_def
      lower_bound_loop.simps equivalent_def vector_insert_def)

section \<open>Bulk construction\<close>



text \<open>
  C8, as stated, asks the range insert into an empty container to leave the same keys as
  single inserts of the same values in any order. With a comparator that looks at a
  projection of the key this fails: of two equivalent values, the single inserts keep
  the one that comes first, so two orders of the same input leave different contents.
\<close>

theorem bulk_insert_counterexample:
  "strict_weak_order compare_first \<and>
   mset [(1, 1), (1, 0 :: int)] = mset [(1, 0), (1 :: int, 1)] \<and>
   storage (insert_range (construct_empty compare_first) [(1, 0), (1, 1)]) = [(1, 0)] \<and>
   storage (insert_each (construct_empty compare_first) [(1, 0), (1, 1)]) = [(1, 0)] \<and>
   storage (insert_each (construct_empty compare_first) [(1, 1), (1, 0)]) = [(1, 1)] \<and>
   storage (insert_range (construct_empty compare_first) [(1, 0), (1, 1)])
     \<noteq> storage (insert_each (construct_empty compare_first) [(1, 1), (1, 0)])"
  by (simp add: swo_compare_first insert_range_def insert_each_def construct_empty_def
      empty_sv_def sort_unique_def std_sort_def equivalent_def compare_first_def insert_sv_def
      lower_bound_def std_lower_bound_def lower_bound_loop.simps end_sv_def vector_insert_def)

text \<open>
  C8, amended. For a strict weak order and any rearrangement \<open>ys\<close> of the input \<open>xs\<close>, the
  range insert of \<open>xs\<close> into an empty container and the single inserts of \<open>ys\<close> leave
  containers of the same size whose elements are equivalent position by position; when
  equivalent keys are equal (as under the default comparator on integers), the two
  containers are the same.
\<close>

theorem bulk_insert_vs_insert_each:
  assumes "strict_weak_order c" "mset ys = mset xs"
  shows "list_all2 (\<lambda>a b. \<not> c a b \<and> \<not> c b a)
           (storage (insert_range (construct_empty c) xs))
           (storage (insert_each (construct_empty c) ys)) \<and>
         size_sv (insert_range (construct_empty c) xs) = size_sv (insert_each (construct_empty c) ys) \<and>
         (equal_when_equivalent c \<longrightarrow>
            insert_range (construct_empty c) xs = insert_each (construct_empty c) ys)"
proof -
  let ?b = "insert_range (construct_empty c) xs" and ?i = "insert_each (construct_empty c) ys"
  from assms(2) have "set ys = set xs" by (metis set_mset_mset)
  from bulk_incremental_equivalent [OF assms(1) this]
  have l: "list_all2 (\<lambda>a b. \<not> c a b \<and> \<not> c b a) (storage ?b) (storage ?i)" .
  then have n: "size_sv ?b = size_sv ?i" by (simp add: size_sv_def list_all2_lengthD)
  have cb: "comp_sv ?b = c"
    using construct_from_props [OF assms(1), of xs] insert_range_empty [of "construct_empty c" xs]
    by (simp add: construct_empty_def empty_sv_def)
  have ci: "comp_sv ?i = c" using insert_each_props [OF assms(1), of ys] by simp
  have "?b = ?i" if "equal_when_equivalent c"
  proof -
    from that have "\<And>a b. \<not> c a b \<and> \<not> c b a \<Longrightarrow> a = b" by (simp add: equal_when_equivalent_def)
    with l have "list_all2 (=) (storage ?b) (storage ?i)" by (rule list_all2_mono)
    then have "storage ?b = storage ?i" by (simp add: list_all2_eq)
    with cb ci show ?thesis by simp
  qed
  with l n show ?thesis by simp
qed

theorem bulk_insert_vs_insert_each_witness:
  "strict_weak_order ((<) :: int \<Rightarrow> int \<Rightarrow> bool) \<and> mset [2, 2, 1 :: int] = mset [2, 1, 2] \<and>
   equal_when_equivalent ((<) :: int \<Rightarrow> int \<Rightarrow> bool) \<and>
   storage (insert_range (construct_empty (<)) [2, 1, 2 :: int]) = [1, 2] \<and>
   storage (insert_each (construct_empty (<)) [2, 2, 1 :: int]) = [1, 2]"
proof -
  have h: "strict_weak_order ((<) :: int \<Rightarrow> int \<Rightarrow> bool)" by (rule swo_less_int)
  have p: "mset [2, 2, 1 :: int] = mset [2, 1, 2]" by simp
  have e: "equal_when_equivalent ((<) :: int \<Rightarrow> int \<Rightarrow> bool)" by (rule equal_when_equivalent_int)
  have s: "storage (insert_range (construct_empty (<)) [2, 1, 2 :: int]) = [1, 2]"
    by (simp add: insert_range_def construct_empty_def empty_sv_def sort_unique_def std_sort_def
        equivalent_def)
  from bulk_insert_vs_insert_each [OF h p] h p e s show ?thesis by simp
qed

section \<open>Invariant preservation\<close>

text \<open>
  C3. After every call of a public mutator \<open>validate\<close> is to return true. This holds for
  every run of defined calls in which the container is assigned from, or swapped with,
  containers that hold its own comparator and \<open>emplace\<close> is given arguments that it does
  not consume (\<open>run_operations_validate\<close>, with \<open>construct_from_well_formed\<close> and
  \<open>construct_empty_well_formed\<close> for the constructors). \<open>swap\<close>, however, exchanges the
  vectors and leaves each comparator where it was: swapping an ascending container with
  a descending one of the same type leaves \<open>[3, 2, 1]\<close> under the ascending comparator,
  and \<open>validate\<close> returns false.
\<close>

theorem swap_breaks_validate:
  "validate (construct_from [1, 2, 3 :: int] (<)) \<and>
   validate (construct_from [1, 2, 3 :: int] (>)) \<and>
   run_operations (construct_from [1, 2, 3 :: int] (<)) [Op_swap (construct_from [1, 2, 3] (>))]
     = Some \<lparr>storage = [3, 2, 1], comp_sv = (<)\<rparr> \<and>
   \<not> validate \<lparr>storage = [3, 2, 1 :: int], comp_sv = (<)\<rparr>"
  by (simp add: validate_def construct_from_def sort_unique_def std_sort_def equivalent_def
      end_sv_def swap_sv_def)

section \<open>Lookup and erase by key\<close>

text \<open>
  C1. On a container that satisfies I1 and I2, \<open>find(k)\<close> is to return the position of the
  element equivalent to \<open>k\<close> when there is one and \<open>end()\<close> otherwise, so that it returns a
  position other than \<open>end()\<close> exactly when \<open>count(k) = 1\<close>. The two branches of \<open>find\<close> are
  exchanged in the source: by \<open>find_sv_well_formed\<close> it returns \<open>end()\<close> for every key that
  is present, and the lower bound for every key that is absent. On the container
  \<open>{1, 3}\<close> the key 1 is counted once and \<open>find(1)\<close> is \<open>end()\<close>, while the key 2 is counted
  zero times and \<open>find(2)\<close> is the position of 3.
\<close>

theorem find_sv_inverted:
  "validate \<lparr>storage = [1, 3 :: int], comp_sv = (<)\<rparr> \<and>
   count_sv \<lparr>storage = [1, 3 :: int], comp_sv = (<)\<rparr> 1 = 1 \<and>
   find_sv \<lparr>storage = [1, 3 :: int], comp_sv = (<)\<rparr> 1 = end_sv \<lparr>storage = [1, 3 :: int], comp_sv = (<)\<rparr> \<and>
   count_sv \<lparr>storage = [1, 3 :: int], comp_sv = (<)\<rparr> 2 = 0 \<and>
   find_sv \<lparr>storage = [1, 3 :: int], comp_sv = (<)\<rparr> 2 = 1 \<and>
   end_sv \<lparr>storage = [1, 3 :: int], comp_sv = (<)\<rparr> = 2"
  by (simp add: validate_def equivalent_def end_sv_def count_sv_def equal_range_def
      std_equal_range_def std_lower_bound_def std_upper_bound_def find_sv_def lower_bound_def
      lower_bound_loop.simps upper_bound_loop.simps)

text \<open>
  C2. \<open>erase(k)\<close> is to remove the element equivalent to \<open>k\<close> and return 1 when there is
  one, and to change nothing and return 0 otherwise. It goes through \<open>find\<close>, so it does the
  opposite (\<open>erase_well_formed_code\<close>): on the container \<open>{1, 3}\<close>, \<open>erase(1)\<close> removes nothing
  and returns 0, and \<open>erase(2)\<close> removes the element 3 and returns 1.
\<close>

theorem erase_key_inverted:
  "erase \<lparr>storage = [1, 3 :: int], comp_sv = (<)\<rparr> 1 = (\<lparr>storage = [1, 3], comp_sv = (<)\<rparr>, 0) \<and>
   erase \<lparr>storage = [1, 3 :: int], comp_sv = (<)\<rparr> 2 = (\<lparr>storage = [1], comp_sv = (<)\<rparr>, 1)"
  by (simp add: erase_def end_sv_def find_sv_def lower_bound_def std_lower_bound_def
      lower_bound_loop.simps vector_erase_def)

section \<open>The semaphore and the raw array\<close>

lemma wait_blocks: "count_sem s = 0 \<Longrightarrow> wait s = Blocks (s\<lparr>waiters := waiters s + 1\<rparr>)"
  by (simp add: wait_def)

text \<open>
  C9. \<open>try_wait\<close> never blocks: from every state it returns. With a positive count it
  returns true, the count is one less and the number of waiters is the same; with a count
  of zero it returns false and the state is unchanged. (\<open>wait\<close>, by contrast, blocks at
  count zero: \<open>wait_blocks\<close>.)
\<close>

theorem try_wait_never_blocks:
  "(\<forall>s'. try_wait s \<noteq> Blocks s') \<and>
   (if 0 < unat (count_sem s)
    then \<exists>s'. try_wait s = Returns s' True \<and> unat (count_sem s') = unat (count_sem s) - 1 \<and>
               waiters s' = waiters s
    else try_wait s = Returns s False)"
proof (cases "count_sem s = 0")
  case True
  then show ?thesis by (simp add: try_wait_def)
next
  case False
  then have pos: "0 < count_sem s" by (simp add: word_greater_zero_iff)
  have "0 < unat (count_sem s)" using False by (simp add: unat_gt_0)
  moreover have "unat (count_sem s - 1) = unat (count_sem s) - 1"
    using False by (simp add: unat_minus_one)
  ultimately show ?thesis using pos by (simp add: try_wait_def)
qed

theorem try_wait_never_blocks_witness:
  "try_wait \<lparr>count_sem = 2, waiters = 1\<rparr> = Returns \<lparr>count_sem = 1, waiters = 1\<rparr> True \<and>
   try_wait \<lparr>count_sem = 0, waiters = 1\<rparr> = Returns \<lparr>count_sem = 0, waiters = 1\<rparr> False"
  using try_wait_never_blocks [of "\<lparr>count_sem = 2, waiters = 1\<rparr>"]
    try_wait_never_blocks [of "\<lparr>count_sem = 0, waiters = 1\<rparr>"]
  by (simp add: try_wait_def)

text \<open>
  C10. For an index \<open>i < N\<close>: \<open>capacity()\<close> is \<open>N\<close> before and after a write, reading
  \<open>operator[](i)\<close> after writing \<open>v\<close> through \<open>operator[](i)\<close> yields \<open>v\<close>, and every other
  slot \<open>j < N\<close> keeps its value. The operator compares nothing with \<open>N\<close>, so \<open>i < N\<close> is a
  precondition of the caller.
\<close>

theorem raw_array_subscript:
  assumes "i < N"
  shows "capacity N a = N \<and> capacity N (subscript_assign a i v) = N \<and>
         subscript (subscript_assign a i v) i = v \<and>
         (\<forall>j<N. j \<noteq> i \<longrightarrow> subscript (subscript_assign a i v) j = subscript a j)"
  by (simp add: capacity_def subscript_def subscript_assign_def)

theorem raw_array_subscript_witness:
  "(1 :: nat) < 3 \<and> capacity 3 \<lparr>data = (\<lambda>_. 0 :: int)\<rparr> = 3 \<and>
   subscript (subscript_assign \<lparr>data = (\<lambda>_. 0 :: int)\<rparr> 1 7) 1 = 7 \<and>
   subscript (subscript_assign \<lparr>data = (\<lambda>_. 0 :: int)\<rparr> 1 7) 2 = 0"
proof -
  have h: "(1 :: nat) < 3" by simp
  from raw_array_subscript [OF h, of "\<lparr>data = (\<lambda>_. 0 :: int)\<rparr>" 7] h
  show ?thesis by (simp add: subscript_def)
qed

end
